theory Spec2Isabelle
  imports Complex_Main "HOL-Library.Multiset"
begin

section \<open>Python values used by \<open>app/main.py\<close>\<close>

text \<open>
  A Python \<open>str\<close> is a sequence of Unicode code points, and \<open>len\<close> counts code points.
  A string is therefore a list of code points; \<open>ascii\<close> writes one from an ASCII literal.
\<close>

type_synonym ustr = "nat list"

definition ascii :: "string \<Rightarrow> ustr" where
  "ascii s = map of_char s"

text \<open>
  \<open>str.isspace\<close> for one code point: the characters that \<open>str.strip()\<close> and
  \<open>str.split()\<close> (both called without an argument) treat as whitespace. These are
  U+0009..U+000D, U+001C..U+0020, U+0085, U+00A0, U+1680, U+2000..U+200A, U+2028,
  U+2029, U+202F, U+205F and U+3000.
\<close>

definition isspace :: "nat \<Rightarrow> bool" where
  "isspace c \<longleftrightarrow>
     (9 \<le> c \<and> c \<le> 13) \<or> (28 \<le> c \<and> c \<le> 32) \<or> c = 133 \<or> c = 160 \<or> c = 5760 \<or>
     (8192 \<le> c \<and> c \<le> 8202) \<or> c = 8232 \<or> c = 8233 \<or> c = 8239 \<or> c = 8287 \<or> c = 12288"

text \<open>\<open>text.strip()\<close>: leading and trailing whitespace removed.\<close>

definition str_strip :: "ustr \<Rightarrow> ustr" where
  "str_strip s = rev (dropWhile isspace (rev (dropWhile isspace s)))"

text \<open>
  \<open>text.split()\<close>: skip a run of whitespace, stop at the end of the string, otherwise
  cut the run of non-whitespace characters that follows as the next word, and go on
  behind it.
\<close>

function str_split :: "ustr \<Rightarrow> ustr list" where
  "str_split s =
     (case dropWhile isspace s of
        [] \<Rightarrow> []
      | c # cs \<Rightarrow>
          takeWhile (\<lambda>x. \<not> isspace x) (c # cs) # str_split (dropWhile (\<lambda>x. \<not> isspace x) cs))"
  by pat_completeness auto
termination
proof (relation "measure length")
  show "wf (measure length)" by simp
next
  fix s :: ustr and c cs
  assume "dropWhile isspace s = c # cs"
  then have "length (c # cs) \<le> length s"
    by (metis length_dropWhile_le)
  moreover have "length (dropWhile (\<lambda>x. \<not> isspace x) cs) \<le> length cs"
    by (rule length_dropWhile_le)
  ultimately show "(dropWhile (\<lambda>x. \<not> isspace x) cs, s) \<in> measure length"
    by simp
qed

declare str_split.simps [simp del]

text \<open>
  \<open>sorted(xs, key=key, reverse=reverse)\<close>: a stable sort. With \<open>reverse=True\<close> the list
  is reversed, sorted stably in ascending key order and reversed again, so that elements
  with equal keys keep their original order.
\<close>

definition sorted_py :: "('a \<Rightarrow> 'k::linorder) \<Rightarrow> bool \<Rightarrow> 'a list \<Rightarrow> 'a list" where
  "sorted_py key reverse xs =
     (if reverse then rev (sort_key key (rev xs)) else sort_key key xs)"

text \<open>
  The slice \<open>xs[:n]\<close>: the first \<open>n\<close> elements, and for a negative \<open>n\<close> all but the
  last \<open>-n\<close>.
\<close>

definition slice_to :: "'a list \<Rightarrow> int \<Rightarrow> 'a list" where
  "slice_to xs n = (if 0 \<le> n then take (nat n) xs else take (length xs - nat (- n)) xs)"

text \<open>\<open>str(n)\<close> for an integer, as the f-string of the log message formats it.\<close>

fun str_nat :: "nat \<Rightarrow> ustr" where
  "str_nat n = (if n < 10 then [48 + n] else str_nat (n div 10) @ [48 + n mod 10])"

declare str_nat.simps [simp del]

definition str_int :: "int \<Rightarrow> ustr" where
  "str_int i = (if i < 0 then 45 # str_nat (nat (- i)) else str_nat (nat i))"

section \<open>The request and response models\<close>

text \<open>
  \<open>PredictRequest\<close>: \<open>text: str\<close> and \<open>top_k: Optional[int] = 1\<close>. The default is applied
  when the request is parsed; a request with \<open>"top_k": null\<close> carries \<open>None\<close>.
\<close>

record PredictRequest =
  req_text :: ustr
  req_top_k :: "int option"

text \<open>An entry \<open>{"token": t, "score": float(len(t))}\<close> of the prediction list.\<close>

record ScoredToken =
  token :: ustr
  score :: real

record PredictResponse =
  input :: ustr
  top_k :: int
  predictions :: "ScoredToken list"

text \<open>
  The exceptions of the predict path: the \<open>HTTPException\<close> the handler raises, with its
  status code and detail, the \<open>TypeError\<close> of \<open>max(1, None)\<close>, and the
  \<open>ValidationError\<close> of building a \<open>PredictResponse\<close> whose \<open>top_k\<close> is not an integer.
\<close>

datatype error = HTTPException nat string | TypeError | ValidationError

text \<open>A task queued on \<open>background_tasks\<close>: a call of \<open>logger.info\<close> with its message.\<close>

datatype task = LoggerInfo ustr

section \<open>The predict path\<close>

text \<open>
  \<open>float(n)\<close> of a length: the conversion is exact for every \<open>n\<close> below \<open>2^53\<close>, which
  the length of any string that fits in memory is, so the score is the length as a real
  number.
\<close>

definition scored_token :: "ustr \<Rightarrow> ScoredToken" where
  "scored_token t = \<lparr>token = t, score = real (length t)\<rparr>"

text \<open>
  \<open>_simple_inference(text, top_k)\<close>. The handler passes \<open>req.top_k\<close>, which may be \<open>None\<close>;
  then \<open>max(1, top_k)\<close> raises \<open>TypeError\<close>.
\<close>

definition simple_inference :: "ustr \<Rightarrow> int option \<Rightarrow> error + ScoredToken list" where
  "simple_inference txt k =
     (let words = str_split txt;
          scored = sorted_py length True words
      in case k of
           None \<Rightarrow> Inl TypeError
         | Some n \<Rightarrow>
             (let top = slice_to scored (max 1 n)
              in Inr (map scored_token top)))"

text \<open>
  The message \<open>f"Predicted for input length={len(text)} top_k={req.top_k}"\<close>;
  \<open>None\<close> is formatted as \<open>None\<close>.
\<close>

definition log_message :: "ustr \<Rightarrow> int option \<Rightarrow> ustr" where
  "log_message txt k =
     ascii ''Predicted for input length='' @ str_int (int (length txt)) @
     ascii '' top_k='' @ (case k of None \<Rightarrow> ascii ''None'' | Some n \<Rightarrow> str_int n)"

text \<open>
  The handler of \<open>POST /predict\<close>, with the queue of background tasks passed through:
  strip the text, reject an empty one with status 400, run the inference, queue the log
  call, build the response from the stripped text, the requested \<open>top_k\<close> and the
  predictions. An exception raised before \<open>add_task\<close> leaves the queue as it was.
\<close>

definition predict ::
  "PredictRequest \<Rightarrow> task list \<Rightarrow> (error + PredictResponse) \<times> task list" where
  "predict req background_tasks =
     (let txt = str_strip (req_text req)
      in if txt = [] then (Inl (HTTPException 400 ''text must not be empty''), background_tasks)
         else
           (case simple_inference txt (req_top_k req) of
              Inl e \<Rightarrow> (Inl e, background_tasks)
            | Inr preds \<Rightarrow>
                (let queued = background_tasks @ [LoggerInfo (log_message txt (req_top_k req))]
                 in case req_top_k req of
                      None \<Rightarrow> (Inl ValidationError, queued)
                    | Some n \<Rightarrow> (Inr \<lparr>input = txt, top_k = n, predictions = preds\<rparr>, queued))))"

section \<open>Whitespace, stripping and splitting\<close>

text \<open>
  A run of characters that all fail \<open>P\<close>, appended to a list, stops \<open>takeWhile P\<close> and
  \<open>dropWhile P\<close> where the list itself ends.
\<close>

lemma dropWhile_append_all_not:
  "\<forall>x\<in>set ws. \<not> P x \<Longrightarrow> dropWhile P (cs @ ws) = dropWhile P cs @ ws"
  by (induction cs) (auto simp: dropWhile_eq_self_iff intro: hd_in_set)

lemma takeWhile_append_all_not:
  "\<forall>x\<in>set ws. \<not> P x \<Longrightarrow> takeWhile P (cs @ ws) = takeWhile P cs"
  by (induction cs) (auto simp: takeWhile_eq_Nil_iff intro: hd_in_set)

text \<open>
  Splitting and stripping give nothing exactly on the texts that are empty or whitespace
  only.
\<close>

lemma str_split_Nil_iff: "str_split s = [] \<longleftrightarrow> list_all isspace s"
proof (cases "dropWhile isspace s")
  case Nil
  have "str_split s = []" by (subst str_split.simps) (simp only: Nil list.case)
  moreover from Nil have "list_all isspace s" by (simp add: list_all_iff)
  ultimately show ?thesis by simp
next
  case (Cons c cs)
  have "str_split s \<noteq> []" by (subst str_split.simps) (simp only: Cons list.case list.distinct not_False_eq_True)
  moreover from Cons have "\<not> list_all isspace s"
    by (metis dropWhile_eq_Nil_conv list.distinct(1) list_all_iff)
  ultimately show ?thesis by simp
qed

lemma str_strip_Nil_iff: "str_strip s = [] \<longleftrightarrow> list_all isspace s"
proof
  assume "str_strip s = []"
  then have all: "\<forall>x\<in>set (dropWhile isspace s). isspace x"
    by (simp add: str_strip_def dropWhile_eq_Nil_conv)
  have "dropWhile isspace s = []"
  proof (rule ccontr)
    assume ne: "dropWhile isspace s \<noteq> []"
    then have "\<not> isspace (hd (dropWhile isspace s))" by (rule hd_dropWhile)
    with all ne show False by (meson hd_in_set)
  qed
  then show "list_all isspace s"
    by (simp add: list_all_iff)
next
  assume "list_all isspace s"
  then have d: "dropWhile isspace s = []"
    by (simp add: list_all_iff)
  show "str_strip s = []" by (simp add: str_strip_def d)
qed

text \<open>
  Whitespace at either end of the text does not change its tokens, so the handler, which
  splits the stripped text, gets the tokens of the text as submitted.
\<close>

lemma str_split_dropWhile: "str_split (dropWhile isspace s) = str_split s"
proof -
  have "dropWhile isspace (dropWhile isspace s) = dropWhile isspace s"
    by (rule dropWhile_idem)
  then show ?thesis
    by (subst str_split.simps, subst (2) str_split.simps) (simp only:)
qed

lemma str_split_append_spaces:
  "\<forall>x\<in>set ws. isspace x \<Longrightarrow> str_split (s @ ws) = str_split s"
proof (induction s rule: str_split.induct)
  case (1 s)
  show ?case
  proof (cases "dropWhile isspace s")
    case Nil
    then have "\<forall>x\<in>set (s @ ws). isspace x"
      using "1.prems" by (auto simp: dropWhile_eq_Nil_conv)
    then have d: "dropWhile isspace (s @ ws) = []"
      by (simp only: dropWhile_eq_Nil_conv)
    have "str_split (s @ ws) = []"
      by (subst str_split.simps) (simp only: d list.case)
    moreover have "str_split s = []"
      by (subst str_split.simps) (simp only: Nil list.case)
    ultimately show ?thesis by simp
  next
    case (Cons c cs)
    then have "c \<in> set s" "\<not> isspace c"
      using set_dropWhileD[of c isspace s] hd_dropWhile[of isspace s] by auto
    then have dw: "dropWhile isspace (s @ ws) = c # (cs @ ws)"
      using Cons by (simp add: dropWhile_append1)
    have nn: "\<forall>x\<in>set ws. \<not> \<not> isspace x" using "1.prems" by simp
    have tw: "takeWhile (\<lambda>x. \<not> isspace x) (c # (cs @ ws)) = takeWhile (\<lambda>x. \<not> isspace x) (c # cs)"
      using takeWhile_append_all_not[OF nn, of "c # cs"] by simp
    have dr: "dropWhile (\<lambda>x. \<not> isspace x) (cs @ ws) = dropWhile (\<lambda>x. \<not> isspace x) cs @ ws"
      using dropWhile_append_all_not[OF nn] by blast
    have ih: "str_split (dropWhile (\<lambda>x. \<not> isspace x) cs @ ws) = str_split (dropWhile (\<lambda>x. \<not> isspace x) cs)"
      using "1.IH"[OF Cons] "1.prems" by blast
    have "str_split (s @ ws) =
        takeWhile (\<lambda>x. \<not> isspace x) (c # cs) # str_split (dropWhile (\<lambda>x. \<not> isspace x) cs)"
      by (subst str_split.simps) (simp only: dw tw dr ih list.case)
    moreover have "str_split s =
        takeWhile (\<lambda>x. \<not> isspace x) (c # cs) # str_split (dropWhile (\<lambda>x. \<not> isspace x) cs)"
      by (subst str_split.simps) (simp only: Cons list.case)
    ultimately show ?thesis by simp
  qed
qed

lemma str_split_strip: "str_split (str_strip s) = str_split s"
proof -
  let ?d = "dropWhile isspace s"
  have "?d = rev (dropWhile isspace (rev ?d)) @ rev (takeWhile isspace (rev ?d))"
    by (metis rev_append rev_rev_ident takeWhile_dropWhile_id)
  then have "?d = str_strip s @ rev (takeWhile isspace (rev ?d))"
    by (simp add: str_strip_def)
  moreover have "\<forall>x\<in>set (rev (takeWhile isspace (rev ?d))). isspace x"
    by (auto dest: set_takeWhileD)
  ultimately have "str_split ?d = str_split (str_strip s)"
    using str_split_append_spaces by metis
  then show ?thesis by (simp add: str_split_dropWhile)
qed

text \<open>
  The tokens are non-empty and free of whitespace, and together they are the
  non-whitespace characters of the text, in order.
\<close>

lemma str_split_tokens:
  "w \<in> set (str_split s) \<Longrightarrow> w \<noteq> [] \<and> list_all (\<lambda>c. \<not> isspace c) w"
proof (induction s rule: str_split.induct)
  case (1 s)
  show ?case
  proof (cases "dropWhile isspace s")
    case Nil
    have "str_split s = []" by (subst str_split.simps) (simp only: Nil list.case)
    with "1.prems" show ?thesis by simp
  next
    case (Cons c cs)
    have nc: "\<not> isspace c"
      using hd_dropWhile[of isspace s] Cons by simp
    have eq: "str_split s =
        takeWhile (\<lambda>x. \<not> isspace x) (c # cs) # str_split (dropWhile (\<lambda>x. \<not> isspace x) cs)"
      by (subst str_split.simps) (simp only: Cons list.case)
    from "1.prems" eq consider
        (hd) "w = takeWhile (\<lambda>x. \<not> isspace x) (c # cs)"
      | (tl) "w \<in> set (str_split (dropWhile (\<lambda>x. \<not> isspace x) cs))"
      by auto
    then show ?thesis
    proof cases
      case hd
      then show ?thesis
        using nc by (auto simp: list_all_iff dest: set_takeWhileD)
    next
      case tl
      then show ?thesis by (rule "1.IH"[OF Cons])
    qed
  qed
qed

lemma concat_str_split: "concat (str_split s) = filter (\<lambda>c. \<not> isspace c) s"
proof (induction s rule: str_split.induct)
  case (1 s)
  have s: "s = takeWhile isspace s @ dropWhile isspace s" by simp
  have f0: "filter (\<lambda>c. \<not> isspace c) (takeWhile isspace s) = []"
    by (auto simp: filter_empty_conv dest: set_takeWhileD)
  have fs: "filter (\<lambda>c. \<not> isspace c) s = filter (\<lambda>c. \<not> isspace c) (dropWhile isspace s)"
    by (subst s, simp only: filter_append f0 append_Nil)
  show ?case
  proof (cases "dropWhile isspace s")
    case Nil
    have "str_split s = []" by (subst str_split.simps) (simp only: Nil list.case)
    then show ?thesis using fs Nil by simp
  next
    case (Cons c cs)
    have nc: "\<not> isspace c"
      using hd_dropWhile[of isspace s] Cons by simp
    let ?P = "\<lambda>x. \<not> isspace x"
    have eq: "str_split s = takeWhile ?P (c # cs) # str_split (dropWhile ?P cs)"
      by (subst str_split.simps) (simp only: Cons list.case)
    have ih: "concat (str_split (dropWhile ?P cs)) = filter ?P (dropWhile ?P cs)"
      by (rule "1.IH"[OF Cons])
    have "filter ?P (c # cs) = filter ?P (takeWhile ?P (c # cs)) @ filter ?P (dropWhile ?P (c # cs))"
      by (metis filter_append takeWhile_dropWhile_id)
    also have "filter ?P (takeWhile ?P (c # cs)) = takeWhile ?P (c # cs)"
      by (rule filter_True) (auto dest: set_takeWhileD)
    also have "dropWhile ?P (c # cs) = dropWhile ?P cs" using nc by simp
    finally have "filter ?P (c # cs) = takeWhile ?P (c # cs) @ filter ?P (dropWhile ?P cs)" .
    then show ?thesis using eq ih fs Cons by simp
  qed
qed

text \<open>
  The stripped text is the text without a whitespace prefix and a whitespace suffix, and
  it has whitespace at neither end.
\<close>

lemma str_strip_decomp:
  "\<exists>pre suf. s = pre @ str_strip s @ suf \<and> list_all isspace pre \<and> list_all isspace suf"
proof -
  let ?d = "dropWhile isspace s"
  have "?d = rev (dropWhile isspace (rev ?d)) @ rev (takeWhile isspace (rev ?d))"
    by (metis rev_append rev_rev_ident takeWhile_dropWhile_id)
  then have "?d = str_strip s @ rev (takeWhile isspace (rev ?d))"
    by (simp add: str_strip_def)
  then have "s = takeWhile isspace s @ str_strip s @ rev (takeWhile isspace (rev ?d))"
    by (metis takeWhile_dropWhile_id)
  moreover have "list_all isspace (takeWhile isspace s)"
    by (auto simp: list_all_iff dest: set_takeWhileD)
  moreover have "list_all isspace (rev (takeWhile isspace (rev ?d)))"
    by (auto simp: list_all_iff dest: set_takeWhileD)
  ultimately show ?thesis by blast
qed

lemma str_strip_ends:
  assumes "str_strip s \<noteq> []"
  shows "\<not> isspace (hd (str_strip s))" and "\<not> isspace (last (str_strip s))"
proof -
  let ?d = "dropWhile isspace s"
  let ?e = "dropWhile isspace (rev ?d)"
  from assms have e: "?e \<noteq> []" by (simp add: str_strip_def)
  then have "\<not> isspace (hd ?e)" by (rule hd_dropWhile)
  then show "\<not> isspace (last (str_strip s))"
    using e by (simp add: str_strip_def last_rev)
  from e have d: "?d \<noteq> []" by (cases "?d") simp_all
  then have hd: "\<not> isspace (hd ?d)" by (rule hd_dropWhile)
  have "?d = str_strip s @ rev (takeWhile isspace (rev ?d))"
    unfolding str_strip_def by (metis rev_append rev_rev_ident takeWhile_dropWhile_id)
  then have "hd ?d = hd (str_strip s)"
    using assms by (metis hd_append2)
  with hd show "\<not> isspace (hd (str_strip s))" by simp
qed

section \<open>Sorting and slicing\<close>

text \<open>
  \<open>sorted\<close> rearranges its input, keeps equal keys in their input order, and with
  \<open>reverse=True\<close> puts larger keys first.
\<close>

lemma mset_sorted_py: "mset (sorted_py key r xs) = mset xs"
  by (simp add: sorted_py_def)



text \<open>The bound \<open>max(1, top_k)\<close> is positive, so the slice is a prefix.\<close>

lemma slice_to_max: "slice_to xs (max 1 k) = take (nat (max 1 k)) xs"
  by (simp add: slice_to_def)

section \<open>The outcomes of the inference and of the handler\<close>

lemma simple_inference_Some:
  "simple_inference txt (Some k) =
     Inr (map scored_token (take (nat (max 1 k)) (sorted_py length True (str_split txt))))"
  by (simp add: simple_inference_def Let_def slice_to_max)

lemma simple_inference_None: "simple_inference txt None = Inl TypeError"
  by (simp add: simple_inference_def Let_def)

lemma predict_empty:
  "str_strip (req_text req) = [] \<Longrightarrow>
     predict req bg = (Inl (HTTPException 400 ''text must not be empty''), bg)"
  by (simp add: predict_def Let_def)

lemma predict_None:
  "str_strip (req_text req) \<noteq> [] \<Longrightarrow> req_top_k req = None \<Longrightarrow>
     predict req bg = (Inl TypeError, bg)"
  by (simp add: predict_def Let_def simple_inference_None)

lemma predict_Some:
  "str_strip (req_text req) \<noteq> [] \<Longrightarrow> req_top_k req = Some k \<Longrightarrow>
     predict req bg =
       (Inr \<lparr>input = str_strip (req_text req), top_k = k,
             predictions = map scored_token
               (take (nat (max 1 k)) (sorted_py length True (str_split (req_text req))))\<rparr>,
        bg @ [LoggerInfo (log_message (str_strip (req_text req)) (Some k))])"
  by (simp add: predict_def Let_def simple_inference_Some str_split_strip)

lemma sorted_py_Nil_iff: "sorted_py key r xs = [] \<longleftrightarrow> xs = []"
  by (metis mset_sorted_py mset_zero_iff)

lemma predict_Inr_cases:
  assumes "fst (predict req bg) = Inr resp"
  obtains k where "str_strip (req_text req) \<noteq> []" and "req_top_k req = Some k"
    and "resp = \<lparr>input = str_strip (req_text req), top_k = k,
             predictions = map scored_token
               (take (nat (max 1 k)) (sorted_py length True (str_split (req_text req))))\<rparr>"
proof (cases "str_strip (req_text req) = []")
  case True
  with assms show ?thesis by (simp add: predict_empty)
next
  case False
  show ?thesis
  proof (cases "req_top_k req")
    case None
    with False assms show ?thesis by (simp add: predict_None)
  next
    case (Some k)
    with False assms that[of k] show ?thesis by (auto simp: predict_Some)
  qed
qed

text \<open>The definitions unfolded to run the handler on a concrete request.\<close>

lemmas eval_defs = predict_def simple_inference_def Let_def str_strip_def sorted_py_def
  slice_to_def scored_token_def str_split.simps ascii_def isspace_def

section \<open>The claims about the predict path\<close>


text \<open>
  Claim C2. The handler fails with the \<open>HTTPException\<close> of status 400 exactly when the
  request text is empty after stripping, which is exactly when the text is empty or
  consists of whitespace only; it raises no \<open>HTTPException\<close> otherwise.
\<close>

theorem predict_invalid_input_iff:
  "(fst (predict req bg) = Inl (HTTPException 400 ''text must not be empty'')) =
     (str_strip (req_text req) = []) \<and>
   (\<exists>code detail. fst (predict req bg) = Inl (HTTPException code detail)) =
     (str_strip (req_text req) = []) \<and>
   (str_strip (req_text req) = []) = list_all isspace (req_text req)"
proof (cases "str_strip (req_text req) = []")
  case True
  then show ?thesis
    using str_strip_Nil_iff[of "req_text req"] by (simp add: predict_empty)
next
  case False
  show ?thesis
  proof (cases "req_top_k req")
    case None
    with False show ?thesis
      using str_strip_Nil_iff[of "req_text req"] by (simp add: predict_None)
  next
    case (Some k)
    with False show ?thesis
      using str_strip_Nil_iff[of "req_text req"] by (simp add: predict_Some)
  qed
qed

text \<open>
  Claim C3. When the text is non-empty after stripping, the handler succeeds for every
  integer \<open>top_k\<close> and returns at least one prediction; and every successful call on such
  a text, whatever its \<open>top_k\<close>, returns at least one prediction.
\<close>

theorem predict_at_least_one_prediction:
  assumes "str_strip txt \<noteq> []"
  shows "(\<exists>resp. fst (predict \<lparr>req_text = txt, req_top_k = Some k\<rparr> bg) = Inr resp \<and>
            predictions resp \<noteq> []) \<and>
         (\<forall>tk resp. fst (predict \<lparr>req_text = txt, req_top_k = tk\<rparr> bg) = Inr resp \<longrightarrow>
            predictions resp \<noteq> [])"
proof -
  from assms have "str_split txt \<noteq> []"
    by (simp add: str_split_Nil_iff str_strip_Nil_iff)
  then have ne: "take (nat (max 1 k')) (sorted_py length True (str_split txt)) \<noteq> []" for k'
    by (simp add: sorted_py_Nil_iff)
  have some: "fst (predict \<lparr>req_text = txt, req_top_k = Some k'\<rparr> bg) = Inr resp \<Longrightarrow>
      predictions resp \<noteq> []" for k' resp
    using assms ne[of k'] by (auto simp: predict_Some)
  have "\<exists>resp. fst (predict \<lparr>req_text = txt, req_top_k = Some k\<rparr> bg) = Inr resp \<and>
            predictions resp \<noteq> []"
    using assms ne[of k] by (simp add: predict_Some)
  moreover have "predictions resp \<noteq> []"
    if "fst (predict \<lparr>req_text = txt, req_top_k = tk\<rparr> bg) = Inr resp" for tk resp
  proof (cases tk)
    case None
    with that assms show ?thesis by (simp add: predict_None)
  next
    case (Some k')
    with that some show ?thesis by blast
  qed
  ultimately show ?thesis by blast
qed

theorem predict_at_least_one_prediction_witness:
  "str_strip (ascii '' hi '') \<noteq> [] \<and>
   (\<exists>resp. fst (predict \<lparr>req_text = ascii '' hi '', req_top_k = Some (- 5)\<rparr> []) = Inr resp \<and>
      predictions resp \<noteq> [])"
proof -
  have h: "str_strip (ascii '' hi '') \<noteq> []"
    by (simp add: str_strip_def ascii_def isspace_def)
  from predict_at_least_one_prediction[OF h, of "- 5" "[]"] h show ?thesis by blast
qed

text \<open>
  Claim C4. For every text, a \<open>top_k\<close> of zero or less gives the same predictions as
  \<open>top_k = 1\<close>: from the inference itself, and from the handler (the same error, or the
  same prediction list).
\<close>

theorem nonpositive_top_k_as_one:
  assumes "k \<le> 0"
  shows "simple_inference txt (Some k) = simple_inference txt (Some 1) \<and>
         map_sum id predictions (fst (predict \<lparr>req_text = txt, req_top_k = Some k\<rparr> bg)) =
         map_sum id predictions (fst (predict \<lparr>req_text = txt, req_top_k = Some 1\<rparr> bg))"
proof -
  from assms have m: "max 1 k = 1" by simp
  have si: "simple_inference txt (Some k) = simple_inference txt (Some 1)"
    by (simp add: simple_inference_Some m)
  show ?thesis
  proof (cases "str_strip txt = []")
    case True
    then show ?thesis using si by (simp add: predict_empty)
  next
    case False
    then show ?thesis using si by (simp add: predict_Some m)
  qed
qed

theorem nonpositive_top_k_as_one_witness:
  "(- 3 :: int) \<le> 0 \<and>
   simple_inference (ascii ''a bb ccc'') (Some (- 3)) = simple_inference (ascii ''a bb ccc'') (Some 1) \<and>
   map_sum id predictions (fst (predict \<lparr>req_text = ascii ''a bb ccc'', req_top_k = Some (- 3)\<rparr> [])) =
     Inr [\<lparr>token = ascii ''ccc'', score = 3\<rparr>]"
proof -
  have h: "(- 3 :: int) \<le> 0" by simp
  have "map_sum id predictions (fst (predict \<lparr>req_text = ascii ''a bb ccc'', req_top_k = Some 1\<rparr> [])) =
     Inr [\<lparr>token = ascii ''ccc'', score = 3\<rparr>]"
    by (simp add: eval_defs)
  with nonpositive_top_k_as_one[OF h, of "ascii ''a bb ccc''" "[]"] h show ?thesis by simp
qed

text \<open>
  Claim C5 as stated says that the \<open>top_k\<close> of the response is \<open>max(1, top_k)\<close>. For the
  text \<open>a\<close> with \<open>top_k = 0\<close> the handler succeeds and the response carries
  \<open>top_k = 0\<close>, not \<open>1\<close>.
\<close>

theorem response_top_k_not_effective:
  "fst (predict \<lparr>req_text = ascii ''a'', req_top_k = Some 0\<rparr> []) =
     Inr \<lparr>input = ascii ''a'', top_k = 0, predictions = [\<lparr>token = ascii ''a'', score = 1\<rparr>]\<rparr> \<and>
   top_k \<lparr>input = ascii ''a'', top_k = 0, predictions = [\<lparr>token = ascii ''a'', score = 1\<rparr>]\<rparr>
     \<noteq> max 1 0"
  by (simp add: eval_defs)

text \<open>
  Claim C5, amended. For every successful call the response carries the stripped text and
  the requested \<open>top_k\<close> unchanged; this is the effective value \<open>max(1, top_k)\<close> exactly
  when the requested \<open>top_k\<close> is at least 1.
\<close>

theorem response_echoes_requested_top_k:
  assumes "fst (predict req bg) = Inr resp"
  shows "req_top_k req = Some (top_k resp) \<and> input resp = str_strip (req_text req) \<and>
         (top_k resp = max 1 (top_k resp)) = (1 \<le> top_k resp)"
  using assms by (elim predict_Inr_cases) auto

theorem response_echoes_requested_top_k_witness:
  "fst (predict \<lparr>req_text = ascii ''a'', req_top_k = Some 0\<rparr> []) =
     Inr \<lparr>input = ascii ''a'', top_k = 0, predictions = [\<lparr>token = ascii ''a'', score = 1\<rparr>]\<rparr> \<and>
   req_top_k \<lparr>req_text = ascii ''a'', req_top_k = Some 0\<rparr> = Some 0 \<and>
   str_strip (ascii ''a'') = ascii ''a''"
proof -
  have h: "fst (predict \<lparr>req_text = ascii ''a'', req_top_k = Some 0\<rparr> []) =
     Inr \<lparr>input = ascii ''a'', top_k = 0, predictions = [\<lparr>token = ascii ''a'', score = 1\<rparr>]\<rparr>"
    by (simp add: eval_defs)
  from response_echoes_requested_top_k[OF h] h show ?thesis by simp
qed

text \<open>
  Claim C6. The inference returns one entry per selected token, in the order of the sorted
  sequence; the token of each entry is the selected token and its score is the length of
  that token.
\<close>

theorem scored_entries:
  "\<exists>preds.
     simple_inference txt (Some k) = Inr preds \<and>
     map token preds = take (nat (max 1 k)) (sorted_py length True (str_split txt)) \<and>
     map score preds = map (\<lambda>p. real (length (token p))) preds"
  by (simp add: simple_inference_Some scored_token_def comp_def)

text \<open>
  Claim C7. For the text \<open>a bb ccc\<close> with \<open>top_k = 2\<close> the predictions are
  \<open>ccc\<close> with score 3 and \<open>bb\<close> with score 2, in that order.
\<close>

theorem predict_example:
  "simple_inference (ascii ''a bb ccc'') (Some 2) =
     Inr [\<lparr>token = ascii ''ccc'', score = 3\<rparr>, \<lparr>token = ascii ''bb'', score = 2\<rparr>] \<and>
   fst (predict \<lparr>req_text = ascii ''a bb ccc'', req_top_k = Some 2\<rparr> bg) =
     Inr \<lparr>input = ascii ''a bb ccc'', top_k = 2,
          predictions = [\<lparr>token = ascii ''ccc'', score = 3\<rparr>, \<lparr>token = ascii ''bb'', score = 2\<rparr>]\<rparr>"
  by (simp add: eval_defs)

text \<open>
  Claim C9. For every successful call, the \<open>input\<close> of the response is the stripped
  request text: the request text is this \<open>input\<close> between a run of whitespace before it
  and a run of whitespace behind it, and the \<open>input\<close> is non-empty and neither begins nor
  ends with whitespace.
\<close>

theorem response_input_is_stripped_text:
  assumes "fst (predict req bg) = Inr resp"
  shows "input resp = str_strip (req_text req) \<and>
         input resp \<noteq> [] \<and> \<not> isspace (hd (input resp)) \<and> \<not> isspace (last (input resp)) \<and>
         (\<exists>pre suf. req_text req = pre @ input resp @ suf \<and>
            list_all isspace pre \<and> list_all isspace suf)"
  using assms
proof (rule predict_Inr_cases)
  fix k
  assume ne: "str_strip (req_text req) \<noteq> []"
    and resp: "resp = \<lparr>input = str_strip (req_text req), top_k = k,
             predictions = map scored_token
               (take (nat (max 1 k)) (sorted_py length True (str_split (req_text req))))\<rparr>"
  from resp have i: "input resp = str_strip (req_text req)" by simp
  show ?thesis
    unfolding i using ne str_strip_ends[OF ne] str_strip_decomp[of "req_text req"] by simp
qed

theorem response_input_is_stripped_text_witness:
  "fst (predict \<lparr>req_text = ascii ''  hi there '', req_top_k = Some 1\<rparr> []) =
     Inr \<lparr>input = ascii ''hi there'', top_k = 1,
          predictions = [\<lparr>token = ascii ''there'', score = 5\<rparr>]\<rparr> \<and>
   ascii ''hi there'' = str_strip (ascii ''  hi there '') \<and>
   ascii ''hi there'' \<noteq> ascii ''  hi there ''"
proof -
  have h: "fst (predict \<lparr>req_text = ascii ''  hi there '', req_top_k = Some 1\<rparr> []) =
     Inr \<lparr>input = ascii ''hi there'', top_k = 1,
          predictions = [\<lparr>token = ascii ''there'', score = 5\<rparr>]\<rparr>"
    by (simp add: eval_defs)
  have "ascii ''hi there'' \<noteq> ascii ''  hi there ''"
    by (simp add: ascii_def)
  with response_input_is_stripped_text[OF h] h show ?thesis by simp
qed

text \<open>
  Claim C10. For every text and every integer \<open>top_k\<close>, the number of predictions is the
  smaller of the number of tokens and \<open>max(1, top_k)\<close>; when \<open>top_k\<close> is at least the
  number of tokens, the predictions hold exactly the tokens of the text.
\<close>

theorem number_of_predictions:
  "\<exists>preds.
     simple_inference txt (Some k) = Inr preds \<and>
     int (length preds) = min (int (length (str_split txt))) (max 1 k) \<and>
     (int (length (str_split txt)) \<le> k \<longrightarrow> mset (map token preds) = mset (str_split txt))"
proof (intro exI conjI impI)
  let ?scored = "sorted_py length True (str_split txt)"
  let ?preds = "map scored_token (take (nat (max 1 k)) ?scored)"
  have len: "length ?scored = length (str_split txt)"
    by (metis mset_sorted_py size_mset)
  show "simple_inference txt (Some k) = Inr ?preds"
    by (rule simple_inference_Some)
  show "int (length ?preds) = min (int (length (str_split txt))) (max 1 k)"
    by (simp add: len; linarith)
  have tok: "map token ?preds = take (nat (max 1 k)) ?scored"
    by (simp add: scored_token_def comp_def)
  show "mset (map token ?preds) = mset (str_split txt)"
    if "int (length (str_split txt)) \<le> k"
  proof -
    from that have "length ?scored \<le> nat (max 1 k)"
      by (simp add: len; linarith)
    then have "take (nat (max 1 k)) ?scored = ?scored" by simp
    with tok have "map token ?preds = ?scored" by simp
    then show ?thesis by (simp only: mset_sorted_py)
  qed
qed

theorem number_of_predictions_witness:
  "int (length (str_split (ascii ''a bb ccc''))) \<le> 5 \<and>
   (\<exists>preds. simple_inference (ascii ''a bb ccc'') (Some 5) = Inr preds \<and>
      int (length preds) = 3 \<and>
      mset (map token preds) = mset [ascii ''a'', ascii ''bb'', ascii ''ccc''])"
proof -
  have s: "str_split (ascii ''a bb ccc'') = [ascii ''a'', ascii ''bb'', ascii ''ccc'']"
    by (simp add: str_split.simps ascii_def isspace_def)
  from number_of_predictions[of "ascii ''a bb ccc''" 5] show ?thesis
    unfolding s by auto
qed

end
